theory Spec2Isabelle
  imports Main "HOL-Library.Word"
begin

section \<open>GPIO pin handles over a hardware abstraction layer\<close>

text \<open>
  A shallow embedding of \<^verbatim>\<open>src/gpio.c\<close> and of the three primitives declared in
  \<^verbatim>\<open>inc/hal.h\<close>. A pin handle \<^verbatim>\<open>gpio_t\<close> is a pointer to a \<^verbatim>\<open>struct gpio_s\<close>;
  the structures live either in the static array of \<^verbatim>\<open>allocateInstance\<close> (the default
  build) or in blocks obtained from \<^verbatim>\<open>malloc\<close> (a build with \<^verbatim>\<open>USE_DYNAMIC_MEM\<close>).
\<close>

subsection \<open>Data\<close>

type_synonym uint8_t = "8 word"

text \<open>
  \<^verbatim>\<open>struct gpio_s\<close>. The fields \<^verbatim>\<open>bit\<close> and \<^verbatim>\<open>output\<close> are called \<open>bit_s\<close> and
  \<open>output_s\<close> here, since \<open>bit\<close> is a constant of HOL and \<open>output\<close> a keyword of
  Isabelle. The field \<^verbatim>\<open>used\<close> exists only in a pool build; a dynamic build
  neither reads nor writes it.
\<close>

record gpio_s =
  port :: uint8_t
  bit_s :: uint8_t
  output_s :: bool
  used :: bool

text \<open>
  A handle: \<open>None\<close> is \<^verbatim>\<open>NULL\<close>, \<open>Some i\<close> points to the \<open>i\<close>-th structure of the
  memory below (in a pool build \<^verbatim>\<open>&instances[i]\<close>).
\<close>

type_synonym gpio_t = "nat option"

text \<open>The calls that reach the hardware abstraction layer, with their arguments.\<close>

datatype hal_call =
  Hal_set_direction uint8_t uint8_t bool
| Hal_set_output uint8_t uint8_t bool
| Hal_get_input uint8_t uint8_t

text \<open>
  The board behind the layer: the calls received so far, oldest first, and the level a
  pin shows when it is sampled, which may depend on everything that was done before.
\<close>

record hal_s =
  calls :: "hal_call list"
  level :: "hal_call list \<Rightarrow> uint8_t \<Rightarrow> uint8_t \<Rightarrow> bool"

text \<open>
  The whole state: the structures a handle can point to (in a pool build the array
  \<^verbatim>\<open>instances[GPIO_MAX_INSTANCES]\<close>, in a dynamic build the blocks \<^verbatim>\<open>malloc\<close> has
  handed out, in the order of their allocation), the board, and the answers of the C
  library's allocator to the calls still to come: \<open>None\<close> for a refusal, \<open>Some g\<close> for a
  fresh block whose bytes read as \<open>g\<close> (\<^verbatim>\<open>malloc\<close> does not clear them). An allocator
  whose answers have run out refuses.
\<close>

record world =
  memory :: "gpio_s list"
  hal :: hal_s
  malloc_script :: "gpio_s option list"

text \<open>The default of the macro \<^verbatim>\<open>GPIO_MAX_INSTANCES\<close>; a build may override it.\<close>

definition GPIO_MAX_INSTANCES :: nat where
  "GPIO_MAX_INSTANCES = 10"

text \<open>The zero-filled structure of \<^verbatim>\<open>instances[GPIO_MAX_INSTANCES] = {0}\<close>.\<close>

definition zero_gpio :: gpio_s where
  "zero_gpio = \<lparr>port = 0, bit_s = 0, output_s = False, used = False\<rparr>"

text \<open>
  The state at start-up: in a pool build (\<open>dyn = False\<close>) the array of \<open>n\<close> zero-filled
  structures, in a dynamic build no block yet; no call has reached the board.
\<close>

definition init_world ::
  "bool \<Rightarrow> nat \<Rightarrow> (hal_call list \<Rightarrow> uint8_t \<Rightarrow> uint8_t \<Rightarrow> bool) \<Rightarrow> gpio_s option list \<Rightarrow> world" where
  "init_world dyn n lv ms =
     \<lparr>memory = (if dyn then [] else replicate n zero_gpio),
      hal = \<lparr>calls = [], level = lv\<rparr>,
      malloc_script = ms\<rparr>"

subsection \<open>The hardware abstraction layer\<close>

text \<open>
  Modelled from the spec: the bodies of the three primitives, which \<^verbatim>\<open>src/hal.c\<close> leaves
  pending for each board. As the spec describes them, they are total, the core only
  hands them \<open>(port, bit)\<close> and a boolean, and their effect is observed through a
  board that records every call in order and answers a sample with the level it holds.
\<close>

definition hal_gpio_set_direction :: "uint8_t \<Rightarrow> uint8_t \<Rightarrow> bool \<Rightarrow> hal_s \<Rightarrow> hal_s" where
  "hal_gpio_set_direction p b out h = h\<lparr>calls := calls h @ [Hal_set_direction p b out]\<rparr>"

definition hal_gpio_set_output :: "uint8_t \<Rightarrow> uint8_t \<Rightarrow> bool \<Rightarrow> hal_s \<Rightarrow> hal_s" where
  "hal_gpio_set_output p b active h = h\<lparr>calls := calls h @ [Hal_set_output p b active]\<rparr>"

definition hal_gpio_get_input :: "uint8_t \<Rightarrow> uint8_t \<Rightarrow> hal_s \<Rightarrow> bool \<times> hal_s" where
  "hal_gpio_get_input p b h = (level h (calls h) p b, h\<lparr>calls := calls h @ [Hal_get_input p b]\<rparr>)"

subsection \<open>Allocation\<close>

text \<open>
  The loop of \<^verbatim>\<open>allocateInstance\<close>, from \<open>index\<close> on: the first structure that is not
  \<^verbatim>\<open>used\<close> is marked and its address returned; \<^verbatim>\<open>result\<close> stays \<^verbatim>\<open>NULL\<close> when the loop
  runs to its end. The array has \<^verbatim>\<open>GPIO_MAX_INSTANCES\<close> elements, so the bound of the loop
  is its length. The counter is a C \<^verbatim>\<open>int\<close>; it stays below the array's size.
\<close>

function allocate_loop :: "gpio_s list \<Rightarrow> nat \<Rightarrow> gpio_t \<times> gpio_s list" where
  "allocate_loop instances index =
     (if index < length instances then
        (if \<not> used (instances ! index)
         then (Some index, instances[index := (instances ! index)\<lparr>used := True\<rparr>])
         else allocate_loop instances (Suc index))
      else (None, instances))"
  by pat_completeness auto
termination
  by (relation "measure (\<lambda>(instances, index). length instances - index)") auto

declare allocate_loop.simps [simp del]

definition allocateInstance :: "world \<Rightarrow> gpio_t \<times> world" where
  "allocateInstance w =
     (case allocate_loop (memory w) 0 of (result, instances) \<Rightarrow> (result, w\<lparr>memory := instances\<rparr>))"

text \<open>
  \<^verbatim>\<open>malloc(sizeof(struct gpio_s))\<close>: the allocator's next answer. A block it grants is
  new, so its address is the first one not yet in the memory.
\<close>

definition malloc_gpio :: "world \<Rightarrow> gpio_t \<times> world" where
  "malloc_gpio w =
     (case malloc_script w of
        [] \<Rightarrow> (None, w)
      | None # ms \<Rightarrow> (None, w\<lparr>malloc_script := ms\<rparr>)
      | Some g # ms \<Rightarrow> (Some (length (memory w)), w\<lparr>memory := memory w @ [g], malloc_script := ms\<rparr>))"

subsection \<open>The four operations\<close>

text \<open>
  \<^verbatim>\<open>gpioCreate\<close>. The flag \<open>dyn\<close> is the preprocessor symbol \<^verbatim>\<open>USE_DYNAMIC_MEM\<close>. The result
  is the handle together with the new state.
\<close>

definition gpioCreate :: "bool \<Rightarrow> uint8_t \<Rightarrow> uint8_t \<Rightarrow> world \<Rightarrow> gpio_t \<times> world" where
  "gpioCreate dyn p b w =
     (case (if dyn then malloc_gpio w else allocateInstance w) of (self, w1) \<Rightarrow>
        (case self of
           None \<Rightarrow> (None, w1)
         | Some i \<Rightarrow>
             (Some i,
              w1\<lparr>memory := (memory w1)[i := (memory w1 ! i)\<lparr>port := p, bit_s := b, output_s := False\<rparr>]\<rparr>)))"

text \<open>
  The other three operations dereference \<^verbatim>\<open>self\<close> without a test. Reading through
  \<^verbatim>\<open>NULL\<close>, or through a pointer to no structure, is undefined in C: the model gives
  \<open>None\<close> there, and \<open>Some\<close> of the new state where the call returns.
\<close>

definition gpioSetOutput :: "gpio_t \<Rightarrow> bool \<Rightarrow> world \<Rightarrow> world option" where
  "gpioSetOutput self out w =
     (case self of
        None \<Rightarrow> None
      | Some i \<Rightarrow>
          if i < length (memory w) then
            (let s = (memory w ! i)\<lparr>output_s := out\<rparr>
             in Some (w\<lparr>memory := (memory w)[i := s],
                       hal := hal_gpio_set_direction (port s) (bit_s s) out (hal w)\<rparr>))
          else None)"

definition gpioSetState :: "gpio_t \<Rightarrow> bool \<Rightarrow> world \<Rightarrow> world option" where
  "gpioSetState self state w =
     (case self of
        None \<Rightarrow> None
      | Some i \<Rightarrow>
          if i < length (memory w) then
            (let s = memory w ! i
             in if output_s s
                then Some (w\<lparr>hal := hal_gpio_set_output (port s) (bit_s s) state (hal w)\<rparr>)
                else Some w)
          else None)"

definition gpioGetState :: "gpio_t \<Rightarrow> world \<Rightarrow> (bool \<times> world) option" where
  "gpioGetState self w =
     (case self of
        None \<Rightarrow> None
      | Some i \<Rightarrow>
          if i < length (memory w) then
            (let s = memory w ! i
             in case hal_gpio_get_input (port s) (bit_s s) (hal w) of
                  (r, h) \<Rightarrow> Some (r, w\<lparr>hal := h\<rparr>))
          else None)"

subsection \<open>Clients\<close>

text \<open>
  A client's calls, in the order it makes them, and what each returns. The handle type is
  opaque, so a client only holds handles that \<^verbatim>\<open>gpioCreate\<close> gave it: \<open>live\<close> says that
  a handle points to a structure that was handed out (in a pool build one that is
  \<^verbatim>\<open>used\<close>, in a dynamic build any block), and a run in which an operation is given
  another handle, \<^verbatim>\<open>NULL\<close> included, has no result.
\<close>

datatype call =
  Create uint8_t uint8_t
| SetOutput gpio_t bool
| SetState gpio_t bool
| GetState gpio_t

datatype ret = Handle gpio_t | Void | Level bool

definition valid_handle :: "world \<Rightarrow> gpio_t \<Rightarrow> bool" where
  "valid_handle w h = (case h of None \<Rightarrow> False | Some i \<Rightarrow> i < length (memory w))"

definition live :: "bool \<Rightarrow> world \<Rightarrow> gpio_t \<Rightarrow> bool" where
  "live dyn w h =
     (case h of None \<Rightarrow> False | Some i \<Rightarrow> i < length (memory w) \<and> (dyn \<or> used (memory w ! i)))"

fun step :: "bool \<Rightarrow> call \<Rightarrow> world \<Rightarrow> (ret \<times> world) option" where
  "step dyn (Create p b) w = (case gpioCreate dyn p b w of (h, w') \<Rightarrow> Some (Handle h, w'))"
| "step dyn (SetOutput h v) w =
     (if live dyn w h then map_option (\<lambda>w'. (Void, w')) (gpioSetOutput h v w) else None)"
| "step dyn (SetState h v) w =
     (if live dyn w h then map_option (\<lambda>w'. (Void, w')) (gpioSetState h v w) else None)"
| "step dyn (GetState h) w =
     (if live dyn w h then map_option (\<lambda>(r, w'). (Level r, w')) (gpioGetState h w) else None)"

fun run :: "bool \<Rightarrow> call list \<Rightarrow> world \<Rightarrow> (ret list \<times> world) option" where
  "run dyn [] w = Some ([], w)"
| "run dyn (c # cs) w =
     (case step dyn c w of
        None \<Rightarrow> None
      | Some (r, w1) \<Rightarrow>
          (case run dyn cs w1 of
             None \<Rightarrow> None
           | Some (rs, w2) \<Rightarrow> Some (r # rs, w2)))"

text \<open>The handles that the \<^verbatim>\<open>gpioCreate\<close> calls of a run returned, in order.\<close>

fun created :: "ret list \<Rightarrow> gpio_t list" where
  "created [] = []"
| "created (Handle h # rs) = h # created rs"
| "created (r # rs) = created rs"

fun is_create :: "call \<Rightarrow> bool" where
  "is_create (Create p b) = True"
| "is_create c = False"

text \<open>
  The spec's words: the value that the most recent \<^verbatim>\<open>set_output\<close> on \<open>h\<close> supplied,
  \<open>None\<close> when there has been none.
\<close>

fun last_set_output :: "gpio_t \<Rightarrow> call list \<Rightarrow> bool option" where
  "last_set_output h [] = None"
| "last_set_output h (c # cs) =
     (case last_set_output h cs of
        Some v \<Rightarrow> Some v
      | None \<Rightarrow> (case c of SetOutput h' v \<Rightarrow> if h' = h then Some v else None | _ \<Rightarrow> None))"

text \<open>The slots behind the handles of a list that are not \<^verbatim>\<open>NULL\<close>, in order.\<close>

fun slots :: "gpio_t list \<Rightarrow> nat list" where
  "slots [] = []"
| "slots (None # hs) = slots hs"
| "slots (Some i # hs) = i # slots hs"

text \<open>A board whose pins all read low, whatever was done before.\<close>

definition all_low :: "hal_call list \<Rightarrow> uint8_t \<Rightarrow> uint8_t \<Rightarrow> bool" where
  "all_low cs p b = False"

text \<open>
  The spec's words for what an allocation returns: the failure signal, or a valid handle
  to a structure with all fields zero-initialized (the reserved flag apart).
\<close>

definition alloc_zeroed :: "gpio_t \<times> world \<Rightarrow> bool" where
  "alloc_zeroed r =
     (case fst r of
        None \<Rightarrow> True
      | Some i \<Rightarrow>
          i < length (memory (snd r)) \<and> port (memory (snd r) ! i) = 0 \<and>
          bit_s (memory (snd r) ! i) = 0 \<and> \<not> output_s (memory (snd r) ! i))"

subsection \<open>Invariants of a run\<close>

text \<open>
  The cached direction of a structure that was handed out is what the last
  \<open>SetOutput\<close> on it supplied; no \<open>SetOutput\<close> has been made on the others.
\<close>

definition dir_inv :: "bool \<Rightarrow> call list \<Rightarrow> world \<Rightarrow> bool" where
  "dir_inv dyn cs w =
     (\<forall>i. (live dyn w (Some i) \<longrightarrow> output_s (memory w ! i) = (last_set_output (Some i) cs = Some True)) \<and>
          (\<not> live dyn w (Some i) \<longrightarrow> last_set_output (Some i) cs = None))"

text \<open>
  A pool build, after the calls \<open>cs\<close> that returned \<open>rs\<close>: the array keeps its size, the
  structures in use are the first ones, as many as there were \<open>Create\<close> calls, the
  others are still zero-filled, and the \<open>k\<close>-th \<open>Create\<close> returned the \<open>k\<close>-th structure
  if there is one.
\<close>

definition pool_inv :: "nat \<Rightarrow> call list \<Rightarrow> ret list \<Rightarrow> world \<Rightarrow> bool" where
  "pool_inv n cs rs w =
     (length (memory w) = n \<and>
      (\<forall>j<n. used (memory w ! j) = (j < length (filter is_create cs))) \<and>
      (\<forall>j<n. \<not> used (memory w ! j) \<longrightarrow> memory w ! j = zero_gpio) \<and>
      created rs = map (\<lambda>k. if k < n then Some k else None) [0..<length (filter is_create cs)])"

section \<open>Auxiliary facts\<close>

subsection \<open>The loop of the pool\<close>

lemma allocate_loop_None:
  "allocate_loop insts k = (None, insts') \<Longrightarrow>
     insts' = insts \<and> (\<forall>j. k \<le> j \<and> j < length insts \<longrightarrow> used (insts ! j))"
proof (induction insts k rule: allocate_loop.induct)
  case (1 instances index)
  show ?case
  proof (cases "index < length instances")
    case False
    with "1.prems" show ?thesis by (auto simp add: allocate_loop.simps)
  next
    case True
    show ?thesis
    proof (cases "used (instances ! index)")
      case False
      with True "1.prems" show ?thesis by (simp add: allocate_loop.simps)
    next
      case u: True
      with True "1.prems" have "allocate_loop instances (Suc index) = (None, insts')"
        by (simp add: allocate_loop.simps)
      with "1.IH" True u
      have ih: "insts' = instances \<and> (\<forall>j. Suc index \<le> j \<and> j < length instances \<longrightarrow> used (instances ! j))"
        by simp
      show ?thesis
      proof (intro conjI allI impI)
        show "insts' = instances" using ih by simp
      next
        fix j assume "index \<le> j \<and> j < length instances"
        then show "used (instances ! j)" using ih u by (cases "j = index") auto
      qed
    qed
  qed
qed

lemma allocate_loop_Some:
  "allocate_loop insts k = (Some i, insts') \<Longrightarrow>
     k \<le> i \<and> i < length insts \<and> \<not> used (insts ! i) \<and>
     (\<forall>j. k \<le> j \<and> j < i \<longrightarrow> used (insts ! j)) \<and>
     insts' = insts[i := (insts ! i)\<lparr>used := True\<rparr>]"
proof (induction insts k rule: allocate_loop.induct)
  case (1 instances index)
  show ?case
  proof (cases "index < length instances")
    case False
    with "1.prems" show ?thesis by (simp add: allocate_loop.simps)
  next
    case True
    show ?thesis
    proof (cases "used (instances ! index)")
      case False
      with True "1.prems" show ?thesis by (auto simp add: allocate_loop.simps)
    next
      case u: True
      with True "1.prems" have "allocate_loop instances (Suc index) = (Some i, insts')"
        by (simp add: allocate_loop.simps)
      with "1.IH" True u
      have ih: "Suc index \<le> i \<and> i < length instances \<and> \<not> used (instances ! i) \<and>
        (\<forall>j. Suc index \<le> j \<and> j < i \<longrightarrow> used (instances ! j)) \<and>
        insts' = instances[i := (instances ! i)\<lparr>used := True\<rparr>]"
        by simp
      have "\<forall>j. index \<le> j \<and> j < i \<longrightarrow> used (instances ! j)"
      proof (intro allI impI)
        fix j assume "index \<le> j \<and> j < i"
        then show "used (instances ! j)" using ih u by (cases "j = index") auto
      qed
      with ih show ?thesis by simp
    qed
  qed
qed

lemma allocate_loop_free:
  "k \<le> i \<Longrightarrow> i < length insts \<Longrightarrow> \<not> used (insts ! i) \<Longrightarrow> fst (allocate_loop insts k) \<noteq> None"
  using allocate_loop_None [of insts k "snd (allocate_loop insts k)"]
  by (cases "allocate_loop insts k") auto

subsection \<open>The operations, one call at a time\<close>

lemma allocateInstance_None:
  "allocateInstance w = (None, w') \<Longrightarrow>
     w' = w \<and> (\<forall>j<length (memory w). used (memory w ! j))"
  using allocate_loop_None [of "memory w" 0]
  by (auto simp: allocateInstance_def split: prod.splits)

lemma allocateInstance_Some:
  "allocateInstance w = (Some i, w') \<Longrightarrow>
     i < length (memory w) \<and> \<not> used (memory w ! i) \<and> (\<forall>j<i. used (memory w ! j)) \<and>
     w' = w\<lparr>memory := (memory w)[i := (memory w ! i)\<lparr>used := True\<rparr>]\<rparr>"
  using allocate_loop_Some [of "memory w" 0 i]
  by (auto simp: allocateInstance_def split: prod.splits)

lemma gpioCreate_pool_None:
  "gpioCreate False p b w = (None, w') \<Longrightarrow>
     w' = w \<and> (\<forall>j<length (memory w). used (memory w ! j))"
  using allocateInstance_None [of w]
  by (auto simp: gpioCreate_def split: prod.splits option.splits)

lemma gpioCreate_pool_Some:
  "gpioCreate False p b w = (Some i, w') \<Longrightarrow>
     i < length (memory w) \<and> \<not> used (memory w ! i) \<and> (\<forall>j<i. used (memory w ! j)) \<and>
     w' = w\<lparr>memory := (memory w)[i := (memory w ! i)\<lparr>used := True, port := p, bit_s := b, output_s := False\<rparr>]\<rparr>"
  using allocateInstance_Some [of w i]
  by (auto simp: gpioCreate_def split: prod.splits option.splits)

lemma gpioCreate_dyn:
  "gpioCreate True p b w =
     (case malloc_script w of
        [] \<Rightarrow> (None, w)
      | None # ms \<Rightarrow> (None, w\<lparr>malloc_script := ms\<rparr>)
      | Some g # ms \<Rightarrow>
          (Some (length (memory w)),
           w\<lparr>memory := memory w @ [g\<lparr>port := p, bit_s := b, output_s := False\<rparr>],
             malloc_script := ms\<rparr>))"
  by (simp add: gpioCreate_def malloc_gpio_def split: list.splits option.splits)

lemma gpioCreate_hal: "hal (snd (gpioCreate dyn p b w)) = hal w"
proof (cases dyn)
  case True
  then show ?thesis by (simp add: gpioCreate_dyn split: list.splits option.splits)
next
  case False
  show ?thesis
  proof (cases "gpioCreate False p b w")
    case (Pair h w')
    then show ?thesis
      using False gpioCreate_pool_None [of p b w w'] gpioCreate_pool_Some [of p b w _ w']
      by (cases h) auto
  qed
qed

lemma gpioSetOutput_Some:
  "i < length (memory w) \<Longrightarrow>
   gpioSetOutput (Some i) v w =
     Some (w\<lparr>memory := (memory w)[i := (memory w ! i)\<lparr>output_s := v\<rparr>],
             hal := hal_gpio_set_direction (port (memory w ! i)) (bit_s (memory w ! i)) v (hal w)\<rparr>)"
  by (simp add: gpioSetOutput_def Let_def)

lemma gpioSetState_Some:
  "i < length (memory w) \<Longrightarrow>
   gpioSetState (Some i) v w =
     Some (if output_s (memory w ! i)
           then w\<lparr>hal := hal_gpio_set_output (port (memory w ! i)) (bit_s (memory w ! i)) v (hal w)\<rparr>
           else w)"
  by (simp add: gpioSetState_def Let_def)

lemma gpioGetState_Some:
  "i < length (memory w) \<Longrightarrow>
   gpioGetState (Some i) w =
     Some (fst (hal_gpio_get_input (port (memory w ! i)) (bit_s (memory w ! i)) (hal w)),
           w\<lparr>hal := snd (hal_gpio_get_input (port (memory w ! i)) (bit_s (memory w ! i)) (hal w))\<rparr>)"
  by (simp add: gpioGetState_def Let_def split: prod.splits)

lemma run_append:
  "run dyn (cs @ [c]) w =
     (case run dyn cs w of
        None \<Rightarrow> None
      | Some (rs, w1) \<Rightarrow>
          (case step dyn c w1 of None \<Rightarrow> None | Some (r, w2) \<Rightarrow> Some (rs @ [r], w2)))"
  by (induction cs arbitrary: w) (auto split: option.splits)

lemma last_set_output_append:
  "last_set_output h (cs @ [c]) =
     (case c of
        SetOutput h' v \<Rightarrow> if h' = h then Some v else last_set_output h cs
      | _ \<Rightarrow> last_set_output h cs)"
  by (induction cs) (auto split: call.splits option.splits)

lemma created_append: "created (rs @ rs') = created rs @ created rs'"
  by (induction rs rule: created.induct) auto

lemma live_Some: "live dyn w (Some i) = (i < length (memory w) \<and> (dyn \<or> used (memory w ! i)))"
  by (simp add: live_def)

lemma live_None: "\<not> live dyn w None"
  by (simp add: live_def)

text \<open>What one step does to the structures.\<close>

lemma step_Create_pool:
  assumes "step False (Create p b) w = Some (r, w')"
  shows "(r = Handle None \<and> w' = w \<and> (\<forall>j<length (memory w). used (memory w ! j))) \<or>
         (\<exists>i. r = Handle (Some i) \<and> i < length (memory w) \<and> \<not> used (memory w ! i) \<and>
              (\<forall>j<i. used (memory w ! j)) \<and>
              w' = w\<lparr>memory := (memory w)[i := (memory w ! i)\<lparr>used := True, port := p, bit_s := b, output_s := False\<rparr>]\<rparr>)"
proof (cases "gpioCreate False p b w")
  case (Pair h w1)
  with assms have r: "r = Handle h" "w' = w1" by auto
  show ?thesis
  proof (cases h)
    case None
    with Pair r gpioCreate_pool_None [of p b w w1] show ?thesis by simp
  next
    case (Some i)
    with Pair r gpioCreate_pool_Some [of p b w i w1] show ?thesis by simp
  qed
qed

lemma step_Create_dyn:
  assumes "step True (Create p b) w = Some (r, w')"
  shows "(r = Handle None \<and> memory w' = memory w \<and> hal w' = hal w) \<or>
         (\<exists>g. r = Handle (Some (length (memory w))) \<and>
              memory w' = memory w @ [g\<lparr>port := p, bit_s := b, output_s := False\<rparr>] \<and> hal w' = hal w)"
  using assms by (auto simp: gpioCreate_dyn split: list.splits option.splits)

lemma step_SetOutput:
  assumes "step dyn (SetOutput h v) w = Some (r, w')"
  shows "\<exists>i. h = Some i \<and> live dyn w h \<and> i < length (memory w) \<and>
     memory w' = (memory w)[i := (memory w ! i)\<lparr>output_s := v\<rparr>]"
proof (cases h)
  case None
  with assms show ?thesis by (simp add: live_None)
next
  case (Some i)
  with assms have l: "live dyn w (Some i)" by (simp split: if_splits)
  then have i: "i < length (memory w)" by (simp add: live_Some)
  with assms Some l show ?thesis by (auto simp: gpioSetOutput_Some)
qed

lemma step_SetState:
  assumes "step dyn (SetState h v) w = Some (r, w')"
  shows "live dyn w h \<and> memory w' = memory w"
proof (cases h)
  case None
  with assms show ?thesis by (simp add: live_None)
next
  case (Some i)
  with assms have l: "live dyn w (Some i)" by (simp split: if_splits)
  then have i: "i < length (memory w)" by (simp add: live_Some)
  with assms Some l show ?thesis by (auto simp: gpioSetState_Some split: if_splits)
qed

lemma step_GetState:
  assumes "step dyn (GetState h) w = Some (r, w')"
  shows "live dyn w h \<and> memory w' = memory w"
proof (cases h)
  case None
  with assms show ?thesis by (simp add: live_None)
next
  case (Some i)
  with assms have l: "live dyn w (Some i)" by (simp split: if_splits)
  then have i: "i < length (memory w)" by (simp add: live_Some)
  with assms Some l show ?thesis by (auto simp: gpioGetState_Some)
qed

text \<open>A structure that was handed out stays so, and keeps its port and bit.\<close>

lemma step_frame:
  assumes s: "step dyn c w = Some (r, w')" and l: "live dyn w (Some i)"
  shows "live dyn w' (Some i) \<and> port (memory w' ! i) = port (memory w ! i) \<and>
         bit_s (memory w' ! i) = bit_s (memory w ! i)"
proof -
  from l have i: "i < length (memory w)" "dyn \<or> used (memory w ! i)"
    by (simp_all add: live_Some)
  show ?thesis
  proof (cases c)
    case (Create p b)
    show ?thesis
    proof (cases dyn)
      case True
      from s have "step True (Create p b) w = Some (r, w')"
        by (simp only: Create True)
      from step_Create_dyn [OF this]
      have "memory w' = memory w \<or> (\<exists>g. memory w' = memory w @ [g])"
        by blast
      then show ?thesis
      proof
        assume "memory w' = memory w"
        with i True show ?thesis by (simp add: live_Some)
      next
        assume "\<exists>g. memory w' = memory w @ [g]"
        then obtain g where "memory w' = memory w @ [g]" ..
        with i True show ?thesis by (simp add: live_Some nth_append)
      qed
    next
      case False
      from s have "step False (Create p b) w = Some (r, w')"
        by (simp only: Create False)
      from step_Create_pool [OF this]
      have "w' = w \<or> (\<exists>k y. k < length (memory w) \<and> \<not> used (memory w ! k) \<and>
                memory w' = (memory w)[k := y])"
        by fastforce
      then show ?thesis
      proof
        assume "w' = w"
        with i l show ?thesis by simp
      next
        assume "\<exists>k y. k < length (memory w) \<and> \<not> used (memory w ! k) \<and>
                memory w' = (memory w)[k := y]"
        then obtain k y where k: "k < length (memory w)" "\<not> used (memory w ! k)"
          "memory w' = (memory w)[k := y]" by blast
        with i False have "k \<noteq> i" by auto
        with k i show ?thesis by (simp add: live_Some)
      qed
    qed
  next
    case (SetOutput h v)
    from s have "step dyn (SetOutput h v) w = Some (r, w')"
      by (simp only: SetOutput)
    from step_SetOutput [OF this] obtain k where
      k: "k < length (memory w)" "memory w' = (memory w)[k := (memory w ! k)\<lparr>output_s := v\<rparr>]"
      by (elim exE conjE)
    show ?thesis
    proof (cases "k = i")
      case True
      with k i show ?thesis by (simp add: live_Some)
    next
      case False
      with k i show ?thesis by (simp add: live_Some)
    qed
  next
    case (SetState h v)
    from s have "step dyn (SetState h v) w = Some (r, w')"
      by (simp only: SetState)
    from step_SetState [OF this] i show ?thesis
      by (simp add: live_Some)
  next
    case (GetState h)
    from s have "step dyn (GetState h) w = Some (r, w')"
      by (simp only: GetState)
    from step_GetState [OF this] i show ?thesis
      by (simp add: live_Some)
  qed
qed

lemma run_frame:
  "run dyn cs w = Some (rs, w') \<Longrightarrow> live dyn w (Some i) \<Longrightarrow>
     live dyn w' (Some i) \<and> port (memory w' ! i) = port (memory w ! i) \<and>
     bit_s (memory w' ! i) = bit_s (memory w ! i)"
proof (induction cs arbitrary: w rs)
  case Nil
  then show ?case by simp
next
  case (Cons c cs)
  from Cons.prems(1) obtain r w1 rs1 where
    s: "step dyn c w = Some (r, w1)" and t: "run dyn cs w1 = Some (rs1, w')"
    by (auto split: option.splits)
  from step_frame [OF s Cons.prems(2)] Cons.IH [OF t] show ?case by simp
qed

lemma run_snoc:
  assumes "run dyn (cs @ [c]) w = Some (rs, w')"
  obtains rs1 w1 r where "run dyn cs w = Some (rs1, w1)" "step dyn c w1 = Some (r, w')"
    "rs = rs1 @ [r]"
  using assms by (auto simp: run_append split: option.splits)

lemma init_not_live: "\<not> live dyn (init_world dyn n lv ms) (Some i)"
  by (simp add: live_Some init_world_def zero_gpio_def)

lemma dir_inv_step:
  assumes inv: "dir_inv dyn cs w" and s: "step dyn c w = Some (r, w')"
  shows "dir_inv dyn (cs @ [c]) w'"
proof (cases c)
  case (Create p b)
  have lso: "\<And>i. last_set_output (Some i) (cs @ [c]) = last_set_output (Some i) cs"
    by (simp add: last_set_output_append Create)
  show ?thesis
  proof (cases dyn)
    case True
    from s have "step True (Create p b) w = Some (r, w')" by (simp only: Create True)
    from step_Create_dyn [OF this]
    have "memory w' = memory w \<or>
          (\<exists>g. memory w' = memory w @ [g\<lparr>port := p, bit_s := b, output_s := False\<rparr>])"
      by blast
    then show ?thesis
    proof
      assume "memory w' = memory w"
      with inv True show ?thesis by (simp add: dir_inv_def lso live_Some)
    next
      assume "\<exists>g. memory w' = memory w @ [g\<lparr>port := p, bit_s := b, output_s := False\<rparr>]"
      then obtain g where m: "memory w' = memory w @ [g\<lparr>port := p, bit_s := b, output_s := False\<rparr>]" ..
      show ?thesis unfolding dir_inv_def lso
      proof (intro allI conjI impI)
        fix i assume "live dyn w' (Some i)"
        then have i: "i < Suc (length (memory w))" using m by (simp add: live_Some)
        show "output_s (memory w' ! i) = (last_set_output (Some i) cs = Some True)"
        proof (cases "i < length (memory w)")
          case True
          with inv \<open>dyn\<close> m show ?thesis by (simp add: dir_inv_def live_Some nth_append)
        next
          case False
          with i have e: "i = length (memory w)" by simp
          with inv \<open>dyn\<close> have "last_set_output (Some i) cs = None"
            by (simp add: dir_inv_def live_Some)
          with e m show ?thesis by simp
        qed
      next
        fix i assume "\<not> live dyn w' (Some i)"
        with \<open>dyn\<close> m have "\<not> live dyn w (Some i)" by (simp add: live_Some)
        with inv show "last_set_output (Some i) cs = None" by (simp add: dir_inv_def)
      qed
    qed
  next
    case False
    from s have "step False (Create p b) w = Some (r, w')" by (simp only: Create False)
    from step_Create_pool [OF this]
    have "w' = w \<or> (\<exists>k. k < length (memory w) \<and> \<not> used (memory w ! k) \<and>
            memory w' = (memory w)[k := (memory w ! k)\<lparr>used := True, port := p, bit_s := b, output_s := False\<rparr>])"
      by fastforce
    then show ?thesis
    proof
      assume "w' = w"
      with inv show ?thesis by (simp add: dir_inv_def lso)
    next
      assume "\<exists>k. k < length (memory w) \<and> \<not> used (memory w ! k) \<and>
            memory w' = (memory w)[k := (memory w ! k)\<lparr>used := True, port := p, bit_s := b, output_s := False\<rparr>]"
      then obtain k where k: "k < length (memory w)" "\<not> used (memory w ! k)"
        "memory w' = (memory w)[k := (memory w ! k)\<lparr>used := True, port := p, bit_s := b, output_s := False\<rparr>]"
        by blast
      from k False have nl: "\<not> live dyn w (Some k)" by (simp add: live_Some)
      with inv have none: "last_set_output (Some k) cs = None" by (simp add: dir_inv_def)
      show ?thesis unfolding dir_inv_def lso
      proof (intro allI conjI impI)
        fix i assume li: "live dyn w' (Some i)"
        show "output_s (memory w' ! i) = (last_set_output (Some i) cs = Some True)"
        proof (cases "i = k")
          case True
          with k none show ?thesis by simp
        next
          case ne: False
          with li k have "live dyn w (Some i)" by (simp add: live_Some)
          with inv ne k show ?thesis by (simp add: dir_inv_def)
        qed
      next
        fix i assume nli: "\<not> live dyn w' (Some i)"
        have "\<not> live dyn w (Some i)"
        proof (cases "i = k")
          case True
          with nl show ?thesis by simp
        next
          case ne: False
          with nli k show ?thesis by (simp add: live_Some)
        qed
        with inv show "last_set_output (Some i) cs = None" by (simp add: dir_inv_def)
      qed
    qed
  qed
next
  case (SetOutput h v)
  from s have "step dyn (SetOutput h v) w = Some (r, w')" by (simp only: SetOutput)
  from step_SetOutput [OF this] obtain k where
    k: "h = Some k" "live dyn w (Some k)" "k < length (memory w)"
    "memory w' = (memory w)[k := (memory w ! k)\<lparr>output_s := v\<rparr>]"
    by auto
  have lso: "\<And>i. last_set_output (Some i) (cs @ [c]) =
     (if k = i then Some v else last_set_output (Some i) cs)"
    by (simp add: last_set_output_append SetOutput k(1))
  have lv: "\<And>i. live dyn w' (Some i) = live dyn w (Some i)"
  proof -
    fix i show "live dyn w' (Some i) = live dyn w (Some i)"
      using k by (cases "i = k") (simp_all add: live_Some)
  qed
  show ?thesis unfolding dir_inv_def lso lv
  proof (intro allI conjI impI)
    fix i assume li: "live dyn w (Some i)"
    show "output_s (memory w' ! i) = ((if k = i then Some v else last_set_output (Some i) cs) = Some True)"
    proof (cases "k = i")
      case True
      with k show ?thesis by simp
    next
      case False
      with inv li k show ?thesis by (simp add: dir_inv_def)
    qed
  next
    fix i assume nli: "\<not> live dyn w (Some i)"
    with k have "k \<noteq> i" by auto
    with inv nli show "(if k = i then Some v else last_set_output (Some i) cs) = None"
      by (simp add: dir_inv_def)
  qed
next
  case (SetState h v)
  from s have "step dyn (SetState h v) w = Some (r, w')" by (simp only: SetState)
  from step_SetState [OF this] have m: "memory w' = memory w" by simp
  have lso: "\<And>i. last_set_output (Some i) (cs @ [c]) = last_set_output (Some i) cs"
    by (simp add: last_set_output_append SetState)
  from inv m show ?thesis by (simp add: dir_inv_def lso live_Some)
next
  case (GetState h)
  from s have "step dyn (GetState h) w = Some (r, w')" by (simp only: GetState)
  from step_GetState [OF this] have m: "memory w' = memory w" by simp
  have lso: "\<And>i. last_set_output (Some i) (cs @ [c]) = last_set_output (Some i) cs"
    by (simp add: last_set_output_append GetState)
  from inv m show ?thesis by (simp add: dir_inv_def lso live_Some)
qed

lemma dir_inv_run:
  "run dyn cs (init_world dyn n lv ms) = Some (rs, w) \<Longrightarrow> dir_inv dyn cs w"
proof (induction cs arbitrary: rs w rule: rev_induct)
  case Nil
  then have "w = init_world dyn n lv ms" by simp
  then show ?case by (simp add: dir_inv_def init_not_live)
next
  case (snoc c cs)
  from snoc.prems obtain rs1 w1 r where
    "run dyn cs (init_world dyn n lv ms) = Some (rs1, w1)" "step dyn c w1 = Some (r, w)"
    by (rule run_snoc)
  with snoc.IH show ?case by (blast intro: dir_inv_step)
qed

lemma step_ret_other:
  "step dyn c w = Some (r, w') \<Longrightarrow> \<not> is_create c \<Longrightarrow> created [r] = []"
  by (cases c) (auto split: if_splits)

lemma pool_inv_step:
  assumes inv: "pool_inv n cs rs w" and s: "step False c w = Some (r, w')"
  shows "pool_inv n (cs @ [c]) (rs @ [r]) w'"
proof -
  let ?m = "length (filter is_create cs)"
  from inv have len: "length (memory w) = n"
    and us: "\<And>j. j < n \<Longrightarrow> used (memory w ! j) = (j < ?m)"
    and ze: "\<And>j. j < n \<Longrightarrow> \<not> used (memory w ! j) \<Longrightarrow> memory w ! j = zero_gpio"
    and cr: "created rs = map (\<lambda>k. if k < n then Some k else None) [0..<?m]"
    by (simp_all add: pool_inv_def)
  show ?thesis
  proof (cases c)
    case (Create p b)
    have cnt: "length (filter is_create (cs @ [c])) = Suc ?m" by (simp add: Create)
    from s have "step False (Create p b) w = Some (r, w')" by (simp only: Create)
    from step_Create_pool [OF this]
    consider (full) "r = Handle None" "w' = w" "\<forall>j<n. used (memory w ! j)"
      | (slot) i where "r = Handle (Some i)" "i < n" "\<not> used (memory w ! i)"
          "\<forall>j<i. used (memory w ! j)"
          "memory w' = (memory w)[i := (memory w ! i)\<lparr>used := True, port := p, bit_s := b, output_s := False\<rparr>]"
      unfolding len by fastforce
    then show ?thesis
    proof cases
      case full
      have "n \<le> ?m"
      proof (rule ccontr)
        assume "\<not> n \<le> ?m"
        then have "?m < n" by simp
        with full(3) us [of ?m] show False by simp
      qed
      with full len us ze cr show ?thesis
        unfolding pool_inv_def cnt by (simp add: created_append)
    next
      case slot
      from slot(2,3) us [of i] have "?m \<le> i" by simp
      moreover have "\<not> ?m < i"
      proof
        assume a: "?m < i"
        with slot(4) have "used (memory w ! ?m)" by simp
        moreover from a slot(2) have "?m < n" by simp
        ultimately show False using us [of ?m] by simp
      qed
      ultimately have im: "i = ?m" by simp
      have "length (memory w') = n" using slot(5) len by simp
      moreover have "\<forall>j<n. used (memory w' ! j) = (j < Suc ?m)"
      proof (intro allI impI)
        fix j assume "j < n"
        then show "used (memory w' ! j) = (j < Suc ?m)"
          using slot(5) len us [of j] im by (cases "j = i") auto
      qed
      moreover have "\<forall>j<n. \<not> used (memory w' ! j) \<longrightarrow> memory w' ! j = zero_gpio"
      proof (intro allI impI)
        fix j assume "j < n" "\<not> used (memory w' ! j)"
        then show "memory w' ! j = zero_gpio"
          using slot(5) len ze [of j] by (cases "j = i") auto
      qed
      moreover have "created (rs @ [r]) = map (\<lambda>k. if k < n then Some k else None) [0..<Suc ?m]"
        using cr slot(1,2) im by (simp add: created_append)
      ultimately show ?thesis unfolding pool_inv_def cnt by blast
    qed
  next
    case (SetOutput h v)
    have cnt: "length (filter is_create (cs @ [c])) = ?m" by (simp add: SetOutput)
    from s have s': "step False (SetOutput h v) w = Some (r, w')" by (simp only: SetOutput)
    from step_ret_other [OF s'] have r: "created [r] = []" by simp
    from step_SetOutput [OF s'] obtain k where
      k: "used (memory w ! k)" "k < length (memory w)"
      "memory w' = (memory w)[k := (memory w ! k)\<lparr>output_s := v\<rparr>]"
      by (auto simp: live_Some)
    have "\<forall>j<n. used (memory w' ! j) = (j < ?m)"
    proof (intro allI impI)
      fix j assume "j < n"
      then show "used (memory w' ! j) = (j < ?m)"
        using k len us [of j] by (cases "j = k") auto
    qed
    moreover have "\<forall>j<n. \<not> used (memory w' ! j) \<longrightarrow> memory w' ! j = zero_gpio"
    proof (intro allI impI)
      fix j assume "j < n" "\<not> used (memory w' ! j)"
      then show "memory w' ! j = zero_gpio"
        using k len ze [of j] by (cases "j = k") auto
    qed
    moreover have "length (memory w') = n" using k len by simp
    ultimately show ?thesis unfolding pool_inv_def cnt using cr r
      by (simp add: created_append)
  next
    case (SetState h v)
    have cnt: "length (filter is_create (cs @ [c])) = ?m" by (simp add: SetState)
    from s have s': "step False (SetState h v) w = Some (r, w')" by (simp only: SetState)
    from step_ret_other [OF s'] have r: "created [r] = []" by simp
    from step_SetState [OF s'] have "memory w' = memory w" by simp
    with inv r show ?thesis unfolding pool_inv_def cnt by (simp add: created_append)
  next
    case (GetState h)
    have cnt: "length (filter is_create (cs @ [c])) = ?m" by (simp add: GetState)
    from s have s': "step False (GetState h) w = Some (r, w')" by (simp only: GetState)
    from step_ret_other [OF s'] have r: "created [r] = []" by simp
    from step_GetState [OF s'] have "memory w' = memory w" by simp
    with inv r show ?thesis unfolding pool_inv_def cnt by (simp add: created_append)
  qed
qed

lemma pool_inv_run:
  "run False cs (init_world False n lv ms) = Some (rs, w) \<Longrightarrow> pool_inv n cs rs w"
proof (induction cs arbitrary: rs w rule: rev_induct)
  case Nil
  then have "w = init_world False n lv ms" "rs = []" by simp_all
  then show ?case by (simp add: pool_inv_def init_world_def zero_gpio_def)
next
  case (snoc c cs)
  from snoc.prems obtain rs1 w1 r where
    "run False cs (init_world False n lv ms) = Some (rs1, w1)" "step False c w1 = Some (r, w)"
    "rs = rs1 @ [r]"
    by (rule run_snoc)
  with snoc.IH show ?case by (simp add: pool_inv_step)
qed

subsection \<open>Directions, creation and consecutive creations\<close>

lemma step_output_frame:
  assumes s: "step dyn c w = Some (r, w')" and l: "live dyn w (Some i)"
    and c: "\<And>v. c \<noteq> SetOutput (Some i) v"
  shows "output_s (memory w' ! i) = output_s (memory w ! i)"
proof -
  from l have i: "i < length (memory w)" "dyn \<or> used (memory w ! i)"
    by (simp_all add: live_Some)
  show ?thesis
  proof (cases c)
    case (Create p b)
    show ?thesis
    proof (cases dyn)
      case True
      from s have "step True (Create p b) w = Some (r, w')"
        by (simp only: Create True)
      from step_Create_dyn [OF this]
      have "memory w' = memory w \<or> (\<exists>g. memory w' = memory w @ [g])"
        by blast
      then show ?thesis
      proof
        assume "memory w' = memory w"
        then show ?thesis by simp
      next
        assume "\<exists>g. memory w' = memory w @ [g]"
        then obtain g where "memory w' = memory w @ [g]" ..
        with i show ?thesis by (simp add: nth_append)
      qed
    next
      case False
      from s have "step False (Create p b) w = Some (r, w')"
        by (simp only: Create False)
      from step_Create_pool [OF this]
      have "w' = w \<or> (\<exists>k y. k < length (memory w) \<and> \<not> used (memory w ! k) \<and>
                memory w' = (memory w)[k := y])"
        by fastforce
      then show ?thesis
      proof
        assume "w' = w"
        then show ?thesis by simp
      next
        assume "\<exists>k y. k < length (memory w) \<and> \<not> used (memory w ! k) \<and>
                memory w' = (memory w)[k := y]"
        then obtain k y where k: "k < length (memory w)" "\<not> used (memory w ! k)"
          "memory w' = (memory w)[k := y]" by blast
        with i False have "k \<noteq> i" by auto
        with k i show ?thesis by simp
      qed
    qed
  next
    case (SetOutput h v)
    from s have "step dyn (SetOutput h v) w = Some (r, w')"
      by (simp only: SetOutput)
    from step_SetOutput [OF this] obtain k where
      k: "h = Some k" "memory w' = (memory w)[k := (memory w ! k)\<lparr>output_s := v\<rparr>]"
      by (elim exE conjE)
    from c [of v] SetOutput k(1) have "k \<noteq> i" by simp
    with k i show ?thesis by simp
  next
    case (SetState h v)
    from s have "step dyn (SetState h v) w = Some (r, w')"
      by (simp only: SetState)
    from step_SetState [OF this] show ?thesis by simp
  next
    case (GetState h)
    from s have "step dyn (GetState h) w = Some (r, w')"
      by (simp only: GetState)
    from step_GetState [OF this] show ?thesis by simp
  qed
qed

lemma last_set_output_Cons_None:
  "last_set_output h (c # cs) = None \<Longrightarrow>
     last_set_output h cs = None \<and> (\<forall>v. c \<noteq> SetOutput h v)"
  by (auto split: option.splits call.splits if_splits)

lemma run_output_frame:
  "run dyn cs w = Some (rs, w') \<Longrightarrow> live dyn w (Some i) \<Longrightarrow>
   last_set_output (Some i) cs = None \<Longrightarrow>
     output_s (memory w' ! i) = output_s (memory w ! i)"
proof (induction cs arbitrary: w rs)
  case Nil
  then show ?case by simp
next
  case (Cons c cs)
  from Cons.prems(1) obtain r w1 rs1 where
    s: "step dyn c w = Some (r, w1)" and t: "run dyn cs w1 = Some (rs1, w')"
    by (auto split: option.splits)
  from last_set_output_Cons_None [OF Cons.prems(3)]
  have n: "last_set_output (Some i) cs = None" and c: "\<And>v. c \<noteq> SetOutput (Some i) v"
    by simp_all
  from step_frame [OF s Cons.prems(2)] have l1: "live dyn w1 (Some i)" by simp
  from step_output_frame [OF s Cons.prems(2) c] Cons.IH [OF t l1 n] show ?case by simp
qed

lemma gpioCreate_Some:
  assumes "gpioCreate dyn p b w = (Some i, w')"
  shows "live dyn w' (Some i) \<and> port (memory w' ! i) = p \<and> bit_s (memory w' ! i) = b \<and>
         \<not> output_s (memory w' ! i)"
proof (cases dyn)
  case True
  with assms show ?thesis
    by (auto simp: gpioCreate_dyn live_Some split: list.splits option.splits)
next
  case False
  with assms gpioCreate_pool_Some [of p b w i w'] show ?thesis
    by (simp add: live_Some)
qed

lemma live_valid: "live dyn w h \<Longrightarrow> valid_handle w h"
  by (cases h) (simp_all add: live_def valid_handle_def)

lemma run_creates:
  "\<exists>rs w'. run dyn (map (\<lambda>(p, b). Create p b) pbs) w = Some (rs, w') \<and> hal w' = hal w \<and>
      length (created rs) = length pbs"
proof (induction pbs arbitrary: w)
  case Nil
  show ?case by simp
next
  case (Cons pb pbs)
  obtain p b where pb: "pb = (p, b)" by (cases pb)
  obtain h w1 where c: "gpioCreate dyn p b w = (h, w1)" by (cases "gpioCreate dyn p b w")
  from gpioCreate_hal [of dyn p b w] c have h1: "hal w1 = hal w" by simp
  from Cons.IH [of w1] obtain rs w' where
    r: "run dyn (map (\<lambda>(p, b). Create p b) pbs) w1 = Some (rs, w')" "hal w' = hal w1"
       "length (created rs) = length pbs"
    by blast
  from pb c r h1 show ?case by simp
qed

lemma slots_created_pool:
  "slots (map (\<lambda>k. if k < n then Some k else None) [0..<m]) = [0..<min n m]"
proof (induction m)
  case 0
  show ?case by simp
next
  case (Suc m)
  have app: "\<And>xs ys. slots (xs @ ys) = slots xs @ slots ys"
  proof -
    fix xs ys show "slots (xs @ ys) = slots xs @ slots ys"
      by (induction xs rule: slots.induct) simp_all
  qed
  show ?case
  proof (cases "m < n")
    case True
    then have "min n (Suc m) = Suc m" "min n m = m" by simp_all
    with Suc True show ?thesis by (simp add: app)
  next
    case False
    then have "min n (Suc m) = n" "min n m = n" by simp_all
    with Suc False show ?thesis by (simp add: app)
  qed
qed

section \<open>The claims\<close>

text \<open>
  C1. Direction gating. In either build, after any calls a client has made since
  start-up, \<open>gpioSetState\<close> on a handle that \<open>gpioCreate\<close> handed out returns, and it
  passes \<open>Hal_set_output\<close> with the handle's port and bit and the given state to the
  board, once, exactly when the most recent \<open>SetOutput\<close> on that handle supplied \<open>True\<close>;
  otherwise (it supplied \<open>False\<close>, or there was none) the state is left as it was. The
  cached direction is the value of that most recent \<open>SetOutput\<close>.
\<close>

theorem set_state_direction_gating:
  assumes "run dyn cs (init_world dyn n lv ms) = Some (rs, w)" and "live dyn w (Some i)"
  shows "output_s (memory w ! i) = (last_set_output (Some i) cs = Some True) \<and>
         gpioSetState (Some i) v w =
           Some (if last_set_output (Some i) cs = Some True
                 then w\<lparr>hal := (hal w)\<lparr>calls := calls (hal w) @
                        [Hal_set_output (port (memory w ! i)) (bit_s (memory w ! i)) v]\<rparr>\<rparr>
                 else w)"
proof -
  from dir_inv_run [OF assms(1)] assms(2)
  have d: "output_s (memory w ! i) = (last_set_output (Some i) cs = Some True)"
    by (simp add: dir_inv_def)
  from assms(2) have "i < length (memory w)" by (simp add: live_Some)
  from gpioSetState_Some [OF this, of v] d show ?thesis
    by (simp add: hal_gpio_set_output_def)
qed

text \<open>A pool of two: the pin is created and configured as an output, then written.\<close>

theorem set_state_direction_gating_witness:
  "run False [Create 1 0, SetOutput (Some 0) True] (init_world False 2 all_low []) =
     Some ([Handle (Some 0), Void],
           \<lparr>memory = [\<lparr>port = 1, bit_s = 0, output_s = True, used = True\<rparr>, zero_gpio],
            hal = \<lparr>calls = [Hal_set_direction 1 0 True], level = all_low\<rparr>,
            malloc_script = []\<rparr>) \<and>
   live False
     \<lparr>memory = [\<lparr>port = 1, bit_s = 0, output_s = True, used = True\<rparr>, zero_gpio],
      hal = \<lparr>calls = [Hal_set_direction 1 0 True], level = all_low\<rparr>,
      malloc_script = []\<rparr> (Some 0) \<and>
   gpioSetState (Some 0) True
     \<lparr>memory = [\<lparr>port = 1, bit_s = 0, output_s = True, used = True\<rparr>, zero_gpio],
      hal = \<lparr>calls = [Hal_set_direction 1 0 True], level = all_low\<rparr>,
      malloc_script = []\<rparr> =
     Some \<lparr>memory = [\<lparr>port = 1, bit_s = 0, output_s = True, used = True\<rparr>, zero_gpio],
           hal = \<lparr>calls = [Hal_set_direction 1 0 True, Hal_set_output 1 0 True], level = all_low\<rparr>,
           malloc_script = []\<rparr>"
proof -
  let ?w = "\<lparr>memory = [\<lparr>port = 1, bit_s = 0, output_s = True, used = True\<rparr>, zero_gpio],
      hal = \<lparr>calls = [Hal_set_direction 1 0 True], level = all_low\<rparr>,
      malloc_script = []\<rparr>"
  have r: "run False [Create 1 0, SetOutput (Some 0) True] (init_world False 2 all_low []) =
     Some ([Handle (Some 0), Void], ?w)"
    by (simp add: init_world_def gpioCreate_def allocateInstance_def allocate_loop.simps
        zero_gpio_def live_def gpioSetOutput_def hal_gpio_set_direction_def numeral_2_eq_2)
  have l: "live False ?w (Some 0)" by (simp add: live_def)
  from set_state_direction_gating [OF r l, of True] r l show ?thesis by simp
qed

text \<open>
  C2. Exhaustion of the pool. In a pool build of capacity \<open>n\<close>, consecutive \<open>Create\<close>
  calls from start-up all return, and the \<open>k\<close>-th of them (counting from \<open>0\<close>) returns a
  handle other than \<^verbatim>\<open>NULL\<close> exactly when \<open>k < n\<close>: the first \<open>n\<close> succeed, the next one
  and every later one returns \<^verbatim>\<open>NULL\<close>. The same holds for the \<open>Create\<close> calls of any run,
  whatever other calls lie between them: no operation frees a structure.
\<close>

theorem pool_exhaustion_bound:
  "(\<exists>rs w. run False (map (\<lambda>(p, b). Create p b) pbs) (init_world False n lv ms) = Some (rs, w) \<and>
      length (created rs) = length pbs \<and>
      (\<forall>k<length pbs. (created rs ! k \<noteq> None) = (k < n))) \<and>
   (\<forall>cs rs w. run False cs (init_world False n lv ms) = Some (rs, w) \<longrightarrow>
      length (created rs) = length (filter is_create cs) \<and>
      (\<forall>k<length (created rs). (created rs ! k \<noteq> None) = (k < n)))"
proof
  from run_creates [of False pbs "init_world False n lv ms"] obtain rs w where
    r: "run False (map (\<lambda>(p, b). Create p b) pbs) (init_world False n lv ms) = Some (rs, w)"
    and len: "length (created rs) = length pbs"
    by blast
  have cnt: "length (filter is_create (map (\<lambda>(p, b). Create p b) pbs)) = length pbs"
    by (induction pbs) (simp_all add: case_prod_beta)
  from pool_inv_run [OF r]
  have "created rs = map (\<lambda>k. if k < n then Some k else None)
          [0..<length (filter is_create (map (\<lambda>(p, b). Create p b) pbs))]"
    unfolding pool_inv_def by blast
  then have cr: "created rs = map (\<lambda>k. if k < n then Some k else None) [0..<length pbs]"
    by (simp only: cnt)
  have "\<forall>k<length pbs. (created rs ! k \<noteq> None) = (k < n)"
    by (simp add: cr)
  with r len
  show "\<exists>rs w. run False (map (\<lambda>(p, b). Create p b) pbs) (init_world False n lv ms) = Some (rs, w) \<and>
      length (created rs) = length pbs \<and>
      (\<forall>k<length pbs. (created rs ! k \<noteq> None) = (k < n))"
    by blast
next
  show "\<forall>cs rs w. run False cs (init_world False n lv ms) = Some (rs, w) \<longrightarrow>
      length (created rs) = length (filter is_create cs) \<and>
      (\<forall>k<length (created rs). (created rs ! k \<noteq> None) = (k < n))"
  proof (intro allI impI)
    fix cs rs w
    assume r: "run False cs (init_world False n lv ms) = Some (rs, w)"
    from pool_inv_run [OF r]
    have cr: "created rs = map (\<lambda>k. if k < n then Some k else None)
          [0..<length (filter is_create cs)]"
      unfolding pool_inv_def by blast
    show "length (created rs) = length (filter is_create cs) \<and>
      (\<forall>k<length (created rs). (created rs ! k \<noteq> None) = (k < n))"
      by (simp add: cr)
  qed
qed

text \<open>
  The bound at the default capacity, with twelve calls: the first and the tenth succeed,
  the eleventh and the twelfth return \<^verbatim>\<open>NULL\<close>.
\<close>

theorem pool_exhaustion_bound_witness:
  "\<exists>rs w. run False (map (\<lambda>(p, b). Create p b) (replicate 12 (0, 0)))
            (init_world False GPIO_MAX_INSTANCES all_low []) = Some (rs, w) \<and>
      length (created rs) = 12 \<and>
      created rs ! 0 \<noteq> None \<and> created rs ! 9 \<noteq> None \<and>
      created rs ! 10 = None \<and> created rs ! 11 = None"
proof -
  from pool_exhaustion_bound [of "replicate 12 (0, 0)" GPIO_MAX_INSTANCES all_low "[]", THEN conjunct1]
  obtain rs w where
    r: "run False (map (\<lambda>(p, b). Create p b) (replicate 12 (0, 0)))
            (init_world False GPIO_MAX_INSTANCES all_low []) = Some (rs, w)"
    and len: "length (created rs) = 12"
    and k: "\<forall>k<12. (created rs ! k \<noteq> None) = (k < GPIO_MAX_INSTANCES)"
    by auto
  from k [rule_format, of 0] k [rule_format, of 9] k [rule_format, of 10] k [rule_format, of 11]
  have "created rs ! 0 \<noteq> None" "created rs ! 9 \<noteq> None"
    "created rs ! 10 = None" "created rs ! 11 = None"
    by (simp_all add: GPIO_MAX_INSTANCES_def)
  with r len show ?thesis by blast
qed

text \<open>
  C3. Order of allocation in a pool build. After any run from start-up, the handles that
  \<open>Create\<close> returned are the structures \<open>0, 1, 2, \<dots>\<close> in this order, up to the capacity,
  and \<^verbatim>\<open>NULL\<close> afterwards; so the slots of the successful calls increase strictly and are
  distinct, and the next \<open>gpioCreate\<close> returns the structure whose index is the number of
  calls made so far, if there is one. In any state of the pool, a successful
  \<open>gpioCreate\<close> returns the structure of lowest index that was not in use, and marks it.
\<close>

theorem pool_allocation_order:
  assumes "run False cs (init_world False n lv ms) = Some (rs, w)"
  shows "created rs = map (\<lambda>k. if k < n then Some k else None) [0..<length (filter is_create cs)] \<and>
         slots (created rs) = [0..<min n (length (filter is_create cs))] \<and>
         sorted_wrt (<) (slots (created rs)) \<and> distinct (slots (created rs)) \<and>
         fst (gpioCreate False p b w) =
           (if length (filter is_create cs) < n then Some (length (filter is_create cs)) else None) \<and>
         (\<forall>u i u'. gpioCreate False p b u = (Some i, u') \<longrightarrow>
            i < length (memory u) \<and> \<not> used (memory u ! i) \<and> (\<forall>j<i. used (memory u ! j)) \<and>
            used (memory u' ! i))"
proof -
  let ?m = "length (filter is_create cs)"
  from pool_inv_run [OF assms]
  have cr: "created rs = map (\<lambda>k. if k < n then Some k else None) [0..<?m]"
    and len: "length (memory w) = n"
    and us: "\<And>j. j < n \<Longrightarrow> used (memory w ! j) = (j < ?m)"
    by (simp_all add: pool_inv_def)
  have sl: "slots (created rs) = [0..<min n ?m]"
    by (simp only: cr slots_created_pool)
  have low: "\<forall>u i u'. gpioCreate False p b u = (Some i, u') \<longrightarrow>
            i < length (memory u) \<and> \<not> used (memory u ! i) \<and> (\<forall>j<i. used (memory u ! j)) \<and>
            used (memory u' ! i)"
  proof (intro allI impI)
    fix u i u'
    assume c: "gpioCreate False p b u = (Some i, u')"
    from gpioCreate_pool_Some [OF c]
    show "i < length (memory u) \<and> \<not> used (memory u ! i) \<and> (\<forall>j<i. used (memory u ! j)) \<and>
            used (memory u' ! i)"
      by simp
  qed
  have nxt: "fst (gpioCreate False p b w) = (if ?m < n then Some ?m else None)"
  proof (cases "gpioCreate False p b w")
    case (Pair h w')
    show ?thesis
    proof (cases h)
      case None
      with Pair gpioCreate_pool_None [of p b w w']
      have full: "\<forall>j<n. used (memory w ! j)" by (simp add: len)
      have "\<not> ?m < n"
      proof
        assume "?m < n"
        with full us [of ?m] show False by simp
      qed
      with Pair None show ?thesis by simp
    next
      case (Some i)
      with Pair gpioCreate_pool_Some [of p b w i w']
      have i: "i < n" "\<not> used (memory w ! i)" "\<forall>j<i. used (memory w ! j)"
        by (simp_all add: len)
      from i(1,2) us [of i] have "?m \<le> i" by simp
      moreover have "\<not> ?m < i"
      proof
        assume a: "?m < i"
        with i(3) have "used (memory w ! ?m)" by simp
        moreover from a i(1) have "?m < n" by simp
        ultimately show False using us [of ?m] by simp
      qed
      ultimately have "i = ?m" by simp
      with Pair Some i(1) show ?thesis by simp
    qed
  qed
  from cr sl low nxt show ?thesis by simp
qed

text \<open>Capacity three: three calls return the structures 0, 1 and 2, in this order.\<close>

theorem pool_allocation_order_witness:
  "run False [Create 4 0, Create 4 1, Create 4 2] (init_world False 3 all_low []) =
     Some ([Handle (Some 0), Handle (Some 1), Handle (Some 2)],
           \<lparr>memory = [\<lparr>port = 4, bit_s = 0, output_s = False, used = True\<rparr>,
                      \<lparr>port = 4, bit_s = 1, output_s = False, used = True\<rparr>,
                      \<lparr>port = 4, bit_s = 2, output_s = False, used = True\<rparr>],
            hal = \<lparr>calls = [], level = all_low\<rparr>, malloc_script = []\<rparr>) \<and>
   slots (created [Handle (Some 0), Handle (Some 1), Handle (Some 2)]) = [0, 1, 2]"
proof -
  let ?w = "\<lparr>memory = [\<lparr>port = 4, bit_s = 0, output_s = False, used = True\<rparr>,
                      \<lparr>port = 4, bit_s = 1, output_s = False, used = True\<rparr>,
                      \<lparr>port = 4, bit_s = 2, output_s = False, used = True\<rparr>],
            hal = \<lparr>calls = [], level = all_low\<rparr>, malloc_script = []\<rparr>"
  have r: "run False [Create 4 0, Create 4 1, Create 4 2] (init_world False 3 all_low []) =
     Some ([Handle (Some 0), Handle (Some 1), Handle (Some 2)], ?w)"
    by (simp add: init_world_def gpioCreate_def allocateInstance_def allocate_loop.simps
        zero_gpio_def numeral_3_eq_3)
  from pool_allocation_order [OF r, of 0 0]
  have "slots (created [Handle (Some 0), Handle (Some 1), Handle (Some 2)]) =
          [0..<min 3 (length (filter is_create [Create 4 0, Create 4 1, Create 4 2]))]"
    by blast
  then have "slots (created [Handle (Some 0), Handle (Some 1), Handle (Some 2)]) = [0, 1, 2]"
    by (simp add: upt_rec)
  with r show ?thesis by blast
qed

text \<open>
  C4. The initial direction is input. In either build, the structure behind a handle
  that \<open>gpioCreate\<close> returned has its cached direction \<open>False\<close>, and it keeps it through
  any later calls among which there is no \<open>SetOutput\<close> on this handle; \<open>gpioSetState\<close> on
  the handle then returns and leaves the whole state, the board's record of calls
  included, as it was.
\<close>

theorem create_initial_direction:
  assumes "gpioCreate dyn p b w0 = (Some i, w1)"
    and "run dyn cs w1 = Some (rs, w)"
    and "last_set_output (Some i) cs = None"
  shows "output_s (memory w1 ! i) = False \<and> output_s (memory w ! i) = False \<and>
         gpioSetState (Some i) v w1 = Some w1 \<and> gpioSetState (Some i) v w = Some w"
proof -
  from gpioCreate_Some [OF assms(1)]
  have l1: "live dyn w1 (Some i)" and o1: "\<not> output_s (memory w1 ! i)" by simp_all
  from run_frame [OF assms(2) l1] have l: "live dyn w (Some i)" by simp
  from run_output_frame [OF assms(2) l1 assms(3)] o1
  have o: "\<not> output_s (memory w ! i)" by simp
  from l1 have i1: "i < length (memory w1)" by (simp add: live_Some)
  from l have i: "i < length (memory w)" by (simp add: live_Some)
  from gpioSetState_Some [OF i1, of v] gpioSetState_Some [OF i, of v] o1 o
  show ?thesis by simp
qed

text \<open>A dynamic build: a block that held other values, a read, then a write that is ignored.\<close>

theorem create_initial_direction_witness:
  "gpioCreate True 3 7 (init_world True 0 all_low [Some \<lparr>port = 9, bit_s = 9, output_s = True, used = True\<rparr>]) =
     (Some 0, \<lparr>memory = [\<lparr>port = 3, bit_s = 7, output_s = False, used = True\<rparr>],
               hal = \<lparr>calls = [], level = all_low\<rparr>, malloc_script = []\<rparr>) \<and>
   run True [GetState (Some 0)]
     \<lparr>memory = [\<lparr>port = 3, bit_s = 7, output_s = False, used = True\<rparr>],
      hal = \<lparr>calls = [], level = all_low\<rparr>, malloc_script = []\<rparr> =
     Some ([Level False],
           \<lparr>memory = [\<lparr>port = 3, bit_s = 7, output_s = False, used = True\<rparr>],
            hal = \<lparr>calls = [Hal_get_input 3 7], level = all_low\<rparr>, malloc_script = []\<rparr>) \<and>
   last_set_output (Some 0) [GetState (Some 0)] = None \<and>
   gpioSetState (Some 0) True
     \<lparr>memory = [\<lparr>port = 3, bit_s = 7, output_s = False, used = True\<rparr>],
      hal = \<lparr>calls = [Hal_get_input 3 7], level = all_low\<rparr>, malloc_script = []\<rparr> =
     Some \<lparr>memory = [\<lparr>port = 3, bit_s = 7, output_s = False, used = True\<rparr>],
           hal = \<lparr>calls = [Hal_get_input 3 7], level = all_low\<rparr>, malloc_script = []\<rparr>"
proof -
  let ?w1 = "\<lparr>memory = [\<lparr>port = 3, bit_s = 7, output_s = False, used = True\<rparr>],
      hal = \<lparr>calls = [], level = all_low\<rparr>, malloc_script = []\<rparr>"
  let ?w = "\<lparr>memory = [\<lparr>port = 3, bit_s = 7, output_s = False, used = True\<rparr>],
      hal = \<lparr>calls = [Hal_get_input 3 7], level = all_low\<rparr>, malloc_script = []\<rparr>"
  have c: "gpioCreate True 3 7 (init_world True 0 all_low [Some \<lparr>port = 9, bit_s = 9, output_s = True, used = True\<rparr>]) =
     (Some 0, ?w1)"
    by (simp add: gpioCreate_def malloc_gpio_def init_world_def)
  have r: "run True [GetState (Some 0)] ?w1 = Some ([Level False], ?w)"
    by (simp add: live_def gpioGetState_def hal_gpio_get_input_def all_low_def)
  have n: "last_set_output (Some 0) [GetState (Some 0)] = None" by simp
  from create_initial_direction [OF c r n, of True] c r n show ?thesis by simp
qed

text \<open>
  C5. \<open>gpioSetOutput\<close> on a handle that points to a structure stores the given value as
  the cached direction and passes \<open>Hal_set_direction\<close>, with the port and bit of the
  structure and that value, to the board, once; nothing else changes. There is no
  condition on the direction cached before.
\<close>

theorem set_output_forwarding:
  assumes "i < length (memory w)"
  shows "gpioSetOutput (Some i) v w =
           Some (w\<lparr>memory := (memory w)[i := (memory w ! i)\<lparr>output_s := v\<rparr>],
                   hal := (hal w)\<lparr>calls := calls (hal w) @
                     [Hal_set_direction (port (memory w ! i)) (bit_s (memory w ! i)) v]\<rparr>\<rparr>)"
  using gpioSetOutput_Some [OF assms, of v] by (simp add: hal_gpio_set_direction_def)

text \<open>A pin that is already an output is configured as an output again: the board is told again.\<close>

theorem set_output_forwarding_witness:
  "(0::nat) < length (memory \<lparr>memory = [\<lparr>port = 1, bit_s = 6, output_s = True, used = True\<rparr>],
       hal = \<lparr>calls = [Hal_set_direction 1 6 True], level = all_low\<rparr>, malloc_script = []\<rparr>) \<and>
   gpioSetOutput (Some 0) True
     \<lparr>memory = [\<lparr>port = 1, bit_s = 6, output_s = True, used = True\<rparr>],
      hal = \<lparr>calls = [Hal_set_direction 1 6 True], level = all_low\<rparr>, malloc_script = []\<rparr> =
     Some \<lparr>memory = [\<lparr>port = 1, bit_s = 6, output_s = True, used = True\<rparr>],
           hal = \<lparr>calls = [Hal_set_direction 1 6 True, Hal_set_direction 1 6 True], level = all_low\<rparr>,
           malloc_script = []\<rparr>"
proof -
  let ?w = "\<lparr>memory = [\<lparr>port = 1, bit_s = 6, output_s = True, used = True\<rparr>],
      hal = \<lparr>calls = [Hal_set_direction 1 6 True], level = all_low\<rparr>, malloc_script = []\<rparr>"
  have i: "(0::nat) < length (memory ?w)" by simp
  from set_output_forwarding [OF i, of True] i show ?thesis by simp
qed

text \<open>
  C6. \<open>gpioGetState\<close> on a handle that points to a structure calls
  \<open>hal_gpio_get_input\<close> with the port and bit of the structure, once, and returns what it
  returned, that is the level the board shows; the board records one \<open>Hal_get_input\<close> and
  nothing else changes. The result and the board afterwards are the same whatever the
  cached direction \<open>d\<close> is.
\<close>

theorem get_state_forwarding:
  assumes "i < length (memory w)"
  shows "gpioGetState (Some i) w =
           Some (fst (hal_gpio_get_input (port (memory w ! i)) (bit_s (memory w ! i)) (hal w)),
                 w\<lparr>hal := snd (hal_gpio_get_input (port (memory w ! i)) (bit_s (memory w ! i)) (hal w))\<rparr>) \<and>
         gpioGetState (Some i) w =
           Some (level (hal w) (calls (hal w)) (port (memory w ! i)) (bit_s (memory w ! i)),
                 w\<lparr>hal := (hal w)\<lparr>calls := calls (hal w) @
                     [Hal_get_input (port (memory w ! i)) (bit_s (memory w ! i))]\<rparr>\<rparr>) \<and>
         map_option fst (gpioGetState (Some i) (w\<lparr>memory := (memory w)[i := (memory w ! i)\<lparr>output_s := d\<rparr>]\<rparr>)) =
           map_option fst (gpioGetState (Some i) w) \<and>
         map_option (hal \<circ> snd) (gpioGetState (Some i) (w\<lparr>memory := (memory w)[i := (memory w ! i)\<lparr>output_s := d\<rparr>]\<rparr>)) =
           map_option (hal \<circ> snd) (gpioGetState (Some i) w)"
proof -
  let ?w = "w\<lparr>memory := (memory w)[i := (memory w ! i)\<lparr>output_s := d\<rparr>]\<rparr>"
  from assms have i': "i < length (memory ?w)" by simp
  from gpioGetState_Some [OF assms] gpioGetState_Some [OF i'] assms show ?thesis
    by (simp add: hal_gpio_get_input_def)
qed

text \<open>Reading a pin that is configured as an output.\<close>

theorem get_state_forwarding_witness:
  "(0::nat) < length (memory \<lparr>memory = [\<lparr>port = 2, bit_s = 5, output_s = True, used = True\<rparr>],
       hal = \<lparr>calls = [], level = all_low\<rparr>, malloc_script = []\<rparr>) \<and>
   gpioGetState (Some 0)
     \<lparr>memory = [\<lparr>port = 2, bit_s = 5, output_s = True, used = True\<rparr>],
      hal = \<lparr>calls = [], level = all_low\<rparr>, malloc_script = []\<rparr> =
     Some (False,
           \<lparr>memory = [\<lparr>port = 2, bit_s = 5, output_s = True, used = True\<rparr>],
            hal = \<lparr>calls = [Hal_get_input 2 5], level = all_low\<rparr>, malloc_script = []\<rparr>)"
proof -
  let ?w = "\<lparr>memory = [\<lparr>port = 2, bit_s = 5, output_s = True, used = True\<rparr>],
       hal = \<lparr>calls = [], level = all_low\<rparr>, malloc_script = []\<rparr>"
  have i: "(0::nat) < length (memory ?w)" by simp
  from get_state_forwarding [OF i, of False, THEN conjunct2, THEN conjunct1] i
  show ?thesis by (simp add: all_low_def)
qed

text \<open>
  C7, as amended. In a pool build, after any run from start-up, \<open>allocateInstance\<close>
  either returns \<^verbatim>\<open>NULL\<close> and changes nothing, all structures being in use, or returns a
  valid handle to a structure that was not in use, whose port, bit and direction are zero
  and whose reserved flag is now set. In a dynamic build, the allocation returns
  \<^verbatim>\<open>NULL\<close> when the allocator refuses, and otherwise a valid handle to a new block whose
  fields hold what the allocator left there, which need not be zero.
\<close>

theorem allocator_contract:
  assumes "run False cs (init_world False n lv ms) = Some (rs, w)"
  shows "(case allocateInstance w of
            (None, w') \<Rightarrow> w' = w \<and> (\<forall>j<length (memory w). used (memory w ! j))
          | (Some i, w') \<Rightarrow>
              i < length (memory w') \<and> memory w' ! i = zero_gpio\<lparr>used := True\<rparr> \<and>
              alloc_zeroed (Some i, w') \<and> \<not> used (memory w ! i)) \<and>
         (case malloc_script u of
            Some g # ms' \<Rightarrow>
              malloc_gpio u = (Some (length (memory u)), u\<lparr>memory := memory u @ [g], malloc_script := ms'\<rparr>) \<and>
              memory (snd (malloc_gpio u)) ! length (memory u) = g
          | _ \<Rightarrow> fst (malloc_gpio u) = None \<and> memory (snd (malloc_gpio u)) = memory u)"
proof -
  from pool_inv_run [OF assms]
  have len: "length (memory w) = n"
    and ze: "\<And>j. j < n \<Longrightarrow> \<not> used (memory w ! j) \<Longrightarrow> memory w ! j = zero_gpio"
    by (simp_all add: pool_inv_def)
  have pool: "case allocateInstance w of
            (None, w') \<Rightarrow> w' = w \<and> (\<forall>j<length (memory w). used (memory w ! j))
          | (Some i, w') \<Rightarrow>
              i < length (memory w') \<and> memory w' ! i = zero_gpio\<lparr>used := True\<rparr> \<and>
              alloc_zeroed (Some i, w') \<and> \<not> used (memory w ! i)"
  proof (cases "allocateInstance w")
    case (Pair h w')
    show ?thesis
    proof (cases h)
      case None
      with Pair allocateInstance_None [of w w'] show ?thesis by simp
    next
      case (Some i)
      with Pair allocateInstance_Some [of w i w']
      have i: "i < length (memory w)" "\<not> used (memory w ! i)"
        and w': "memory w' = (memory w)[i := (memory w ! i)\<lparr>used := True\<rparr>]"
        by simp_all
      from i len ze [of i] have z: "memory w ! i = zero_gpio" by simp
      with i w' have "memory w' ! i = zero_gpio\<lparr>used := True\<rparr>" "i < length (memory w')"
        by simp_all
      with Pair Some i show ?thesis by (simp add: alloc_zeroed_def zero_gpio_def)
    qed
  qed
  have dyn: "case malloc_script u of
            Some g # ms' \<Rightarrow>
              malloc_gpio u = (Some (length (memory u)), u\<lparr>memory := memory u @ [g], malloc_script := ms'\<rparr>) \<and>
              memory (snd (malloc_gpio u)) ! length (memory u) = g
          | _ \<Rightarrow> fst (malloc_gpio u) = None \<and> memory (snd (malloc_gpio u)) = memory u"
    by (simp add: malloc_gpio_def split: list.splits option.splits)
  from pool dyn show ?thesis by (rule conjI)
qed

text \<open>A pool of two after one \<open>Create\<close>: the second structure is handed out, zero-filled and marked.\<close>

theorem allocator_contract_witness:
  "run False [Create 5 1] (init_world False 2 all_low []) =
     Some ([Handle (Some 0)],
           \<lparr>memory = [\<lparr>port = 5, bit_s = 1, output_s = False, used = True\<rparr>, zero_gpio],
            hal = \<lparr>calls = [], level = all_low\<rparr>, malloc_script = []\<rparr>) \<and>
   allocateInstance
     \<lparr>memory = [\<lparr>port = 5, bit_s = 1, output_s = False, used = True\<rparr>, zero_gpio],
      hal = \<lparr>calls = [], level = all_low\<rparr>, malloc_script = []\<rparr> =
     (Some 1,
      \<lparr>memory = [\<lparr>port = 5, bit_s = 1, output_s = False, used = True\<rparr>,
                 \<lparr>port = 0, bit_s = 0, output_s = False, used = True\<rparr>],
       hal = \<lparr>calls = [], level = all_low\<rparr>, malloc_script = []\<rparr>) \<and>
   alloc_zeroed (Some 1,
      \<lparr>memory = [\<lparr>port = 5, bit_s = 1, output_s = False, used = True\<rparr>,
                 \<lparr>port = 0, bit_s = 0, output_s = False, used = True\<rparr>],
       hal = \<lparr>calls = [], level = all_low\<rparr>, malloc_script = []\<rparr>)"
proof -
  let ?w = "\<lparr>memory = [\<lparr>port = 5, bit_s = 1, output_s = False, used = True\<rparr>, zero_gpio],
      hal = \<lparr>calls = [], level = all_low\<rparr>, malloc_script = []\<rparr>"
  let ?w' = "\<lparr>memory = [\<lparr>port = 5, bit_s = 1, output_s = False, used = True\<rparr>,
                 \<lparr>port = 0, bit_s = 0, output_s = False, used = True\<rparr>],
       hal = \<lparr>calls = [], level = all_low\<rparr>, malloc_script = []\<rparr>"
  have r: "run False [Create 5 1] (init_world False 2 all_low []) = Some ([Handle (Some 0)], ?w)"
    by (simp add: init_world_def gpioCreate_def allocateInstance_def allocate_loop.simps
        zero_gpio_def numeral_2_eq_2)
  have a: "allocateInstance ?w = (Some 1, ?w')"
    by (simp add: allocateInstance_def allocate_loop.simps zero_gpio_def)
  from allocator_contract [OF r, THEN conjunct1] a have "alloc_zeroed (Some 1, ?w')"
    by (simp add: zero_gpio_def)
  with r a show ?thesis by blast
qed

text \<open>
  C7 as the spec states it, zero-initialized fields in both builds, fails in a dynamic
  build: \<^verbatim>\<open>malloc\<close> hands out the block as it is.
\<close>

theorem malloc_block_not_zeroed:
  "\<not> alloc_zeroed (malloc_gpio (init_world True GPIO_MAX_INSTANCES all_low
        [Some \<lparr>port = 7, bit_s = 3, output_s = True, used = False\<rparr>]))"
  by (simp add: alloc_zeroed_def malloc_gpio_def init_world_def)

text \<open>
  C8. Port and bit are fixed at creation. In either build, after \<open>gpioCreate p b\<close>
  returned a handle, the structure behind it has port \<open>p\<close> and bit \<open>b\<close> after any later
  calls. \<open>gpioSetOutput\<close> on any handle leaves the port and the bit of every structure as
  they were; \<open>gpioSetState\<close> and \<open>gpioGetState\<close> leave every field of every structure as
  it was.
\<close>

theorem port_bit_immutable:
  assumes "gpioCreate dyn p b w0 = (Some i, w1)" and "run dyn cs w1 = Some (rs, w)"
  shows "port (memory w ! i) = p \<and> bit_s (memory w ! i) = b \<and>
         (\<forall>h v u u'. gpioSetOutput h v u = Some u' \<longrightarrow>
            map port (memory u') = map port (memory u) \<and>
            map bit_s (memory u') = map bit_s (memory u)) \<and>
         (\<forall>h v u u'. gpioSetState h v u = Some u' \<longrightarrow> memory u' = memory u) \<and>
         (\<forall>h u r u'. gpioGetState h u = Some (r, u') \<longrightarrow> memory u' = memory u)"
proof -
  from gpioCreate_Some [OF assms(1)]
  have l1: "live dyn w1 (Some i)" and pb: "port (memory w1 ! i) = p" "bit_s (memory w1 ! i) = b"
    by simp_all
  from run_frame [OF assms(2) l1] pb
  have a: "port (memory w ! i) = p \<and> bit_s (memory w ! i) = b" by simp
  have so: "\<forall>h v u u'. gpioSetOutput h v u = Some u' \<longrightarrow>
            map port (memory u') = map port (memory u) \<and>
            map bit_s (memory u') = map bit_s (memory u)"
  proof (intro allI impI)
    fix h v u u'
    assume s: "gpioSetOutput h v u = Some u'"
    then obtain k where k: "h = Some k" "k < length (memory u)"
      by (cases h) (auto simp: gpioSetOutput_def split: if_splits)
    from s gpioSetOutput_Some [OF k(2), of v] k(1)
    have "memory u' = (memory u)[k := (memory u ! k)\<lparr>output_s := v\<rparr>]" by auto
    with k(2) show "map port (memory u') = map port (memory u) \<and>
            map bit_s (memory u') = map bit_s (memory u)"
      by (simp add: map_update list_update_same_conv)
  qed
  have ss: "\<forall>h v u u'. gpioSetState h v u = Some u' \<longrightarrow> memory u' = memory u"
  proof (intro allI impI)
    fix h v u u'
    assume s: "gpioSetState h v u = Some u'"
    then obtain k where k: "h = Some k" "k < length (memory u)"
      by (cases h) (auto simp: gpioSetState_def split: if_splits)
    from s gpioSetState_Some [OF k(2), of v] k(1)
    show "memory u' = memory u" by (auto split: if_splits)
  qed
  have gs: "\<forall>h u r u'. gpioGetState h u = Some (r, u') \<longrightarrow> memory u' = memory u"
  proof (intro allI impI)
    fix h u r u'
    assume s: "gpioGetState h u = Some (r, u')"
    then obtain k where k: "h = Some k" "k < length (memory u)"
      by (cases h) (auto simp: gpioGetState_def split: if_splits)
    from s gpioGetState_Some [OF k(2)] k(1)
    show "memory u' = memory u" by auto
  qed
  from a so ss gs show ?thesis by blast
qed

text \<open>A pool of one: the pin is configured, written and read, and a further \<open>Create\<close> fails.\<close>

theorem port_bit_immutable_witness:
  "gpioCreate False 1 0 (init_world False 1 all_low []) =
     (Some 0, \<lparr>memory = [\<lparr>port = 1, bit_s = 0, output_s = False, used = True\<rparr>],
               hal = \<lparr>calls = [], level = all_low\<rparr>, malloc_script = []\<rparr>) \<and>
   run False [SetOutput (Some 0) True, SetState (Some 0) True, GetState (Some 0), Create 8 8]
     \<lparr>memory = [\<lparr>port = 1, bit_s = 0, output_s = False, used = True\<rparr>],
      hal = \<lparr>calls = [], level = all_low\<rparr>, malloc_script = []\<rparr> =
     Some ([Void, Void, Level False, Handle None],
           \<lparr>memory = [\<lparr>port = 1, bit_s = 0, output_s = True, used = True\<rparr>],
            hal = \<lparr>calls = [Hal_set_direction 1 0 True, Hal_set_output 1 0 True, Hal_get_input 1 0],
                   level = all_low\<rparr>,
            malloc_script = []\<rparr>) \<and>
   port (memory \<lparr>memory = [\<lparr>port = 1, bit_s = 0, output_s = True, used = True\<rparr>],
            hal = \<lparr>calls = [Hal_set_direction 1 0 True, Hal_set_output 1 0 True, Hal_get_input 1 0],
                   level = all_low\<rparr>,
            malloc_script = []\<rparr> ! 0) = 1"
proof -
  let ?w1 = "\<lparr>memory = [\<lparr>port = 1, bit_s = 0, output_s = False, used = True\<rparr>],
      hal = \<lparr>calls = [], level = all_low\<rparr>, malloc_script = []\<rparr>"
  let ?w = "\<lparr>memory = [\<lparr>port = 1, bit_s = 0, output_s = True, used = True\<rparr>],
            hal = \<lparr>calls = [Hal_set_direction 1 0 True, Hal_set_output 1 0 True, Hal_get_input 1 0],
                   level = all_low\<rparr>,
            malloc_script = []\<rparr>"
  have c: "gpioCreate False 1 0 (init_world False 1 all_low []) = (Some 0, ?w1)"
    by (simp add: init_world_def gpioCreate_def allocateInstance_def allocate_loop.simps zero_gpio_def)
  have r: "run False [SetOutput (Some 0) True, SetState (Some 0) True, GetState (Some 0), Create 8 8] ?w1 =
     Some ([Void, Void, Level False, Handle None], ?w)"
    by (simp add: live_def gpioSetOutput_def gpioSetState_def gpioGetState_def gpioCreate_def
        allocateInstance_def allocate_loop.simps hal_gpio_set_direction_def hal_gpio_set_output_def
        hal_gpio_get_input_def all_low_def)
  from port_bit_immutable [OF c r, THEN conjunct1] c r show ?thesis by blast
qed

text \<open>
  C9. \<open>gpioSetOutput\<close>, \<open>gpioSetState\<close> and \<open>gpioGetState\<close> return on every handle that
  points to a structure, for every boolean argument. Such a handle is not \<^verbatim>\<open>NULL\<close>; on
  \<^verbatim>\<open>NULL\<close> the three operations have no defined result. Every handle other than \<^verbatim>\<open>NULL\<close>
  that \<open>gpioCreate\<close> returned points to a structure, then and after any later calls.
\<close>

theorem operations_total:
  assumes "valid_handle w h"
  shows "(\<exists>w1. gpioSetOutput h v w = Some w1) \<and> (\<exists>w2. gpioSetState h v w = Some w2) \<and>
         (\<exists>r w3. gpioGetState h w = Some (r, w3)) \<and> h \<noteq> None \<and>
         gpioSetOutput None v w = None \<and> gpioSetState None v w = None \<and>
         gpioGetState None w = None \<and>
         (\<forall>dyn p b u0 i u1 cs rs u.
            gpioCreate dyn p b u0 = (Some i, u1) \<and> run dyn cs u1 = Some (rs, u) \<longrightarrow>
            valid_handle u1 (Some i) \<and> valid_handle u (Some i))"
proof -
  from assms obtain i where i: "h = Some i" "i < length (memory w)"
    by (cases h) (simp_all add: valid_handle_def)
  have ops: "(\<exists>w1. gpioSetOutput h v w = Some w1) \<and> (\<exists>w2. gpioSetState h v w = Some w2) \<and>
         (\<exists>r w3. gpioGetState h w = Some (r, w3)) \<and> h \<noteq> None"
    using i gpioSetOutput_Some [OF i(2), of v] gpioSetState_Some [OF i(2), of v]
      gpioGetState_Some [OF i(2)] by simp
  have null: "gpioSetOutput None v w = None \<and> gpioSetState None v w = None \<and>
         gpioGetState None w = None"
    by (simp add: gpioSetOutput_def gpioSetState_def gpioGetState_def)
  have cr: "\<forall>dyn p b u0 i u1 cs rs u.
            gpioCreate dyn p b u0 = (Some i, u1) \<and> run dyn cs u1 = Some (rs, u) \<longrightarrow>
            valid_handle u1 (Some i) \<and> valid_handle u (Some i)"
  proof (intro allI impI)
    fix dyn p b u0 i u1 cs rs u
    assume a: "gpioCreate dyn p b u0 = (Some i, u1) \<and> run dyn cs u1 = Some (rs, u)"
    then have c: "gpioCreate dyn p b u0 = (Some i, u1)" and r: "run dyn cs u1 = Some (rs, u)"
      by simp_all
    from gpioCreate_Some [OF c] have l1: "live dyn u1 (Some i)" by simp
    from run_frame [OF r l1] have l: "live dyn u (Some i)" by simp
    from l1 l show "valid_handle u1 (Some i) \<and> valid_handle u (Some i)"
      by (simp add: live_valid)
  qed
  from ops null cr show ?thesis by blast
qed

text \<open>The three operations on the only handle of a pool of one.\<close>

theorem operations_total_witness:
  "valid_handle \<lparr>memory = [\<lparr>port = 1, bit_s = 0, output_s = False, used = True\<rparr>],
      hal = \<lparr>calls = [], level = all_low\<rparr>, malloc_script = []\<rparr> (Some 0) \<and>
   (\<exists>w1. gpioSetOutput (Some 0) True \<lparr>memory = [\<lparr>port = 1, bit_s = 0, output_s = False, used = True\<rparr>],
      hal = \<lparr>calls = [], level = all_low\<rparr>, malloc_script = []\<rparr> = Some w1) \<and>
   (\<exists>w2. gpioSetState (Some 0) True \<lparr>memory = [\<lparr>port = 1, bit_s = 0, output_s = False, used = True\<rparr>],
      hal = \<lparr>calls = [], level = all_low\<rparr>, malloc_script = []\<rparr> = Some w2) \<and>
   (\<exists>r w3. gpioGetState (Some 0) \<lparr>memory = [\<lparr>port = 1, bit_s = 0, output_s = False, used = True\<rparr>],
      hal = \<lparr>calls = [], level = all_low\<rparr>, malloc_script = []\<rparr> = Some (r, w3))"
proof -
  let ?w = "\<lparr>memory = [\<lparr>port = 1, bit_s = 0, output_s = False, used = True\<rparr>],
      hal = \<lparr>calls = [], level = all_low\<rparr>, malloc_script = []\<rparr>"
  have v: "valid_handle ?w (Some 0)" by (simp add: valid_handle_def)
  from operations_total [OF v, of True] v show ?thesis by blast
qed

text \<open>
  C10. \<open>gpioCreate\<close> makes no call to the hardware abstraction layer: in either build,
  whether it returns a handle or \<^verbatim>\<open>NULL\<close>, the board is left as it was, and so it is after
  any number of consecutive \<open>Create\<close> calls. At start-up the board has received no call.
\<close>

theorem create_silent:
  "hal (snd (gpioCreate dyn p b w)) = hal w \<and>
   map_option (hal \<circ> snd) (run dyn (map (\<lambda>(p, b). Create p b) pbs) w) = Some (hal w) \<and>
   calls (hal (init_world dyn n lv ms)) = []"
proof -
  from run_creates [of dyn pbs w]
  have "map_option (hal \<circ> snd) (run dyn (map (\<lambda>(p, b). Create p b) pbs) w) = Some (hal w)"
    by auto
  then show ?thesis by (simp add: gpioCreate_hal init_world_def)
qed

end
